theory Spec2Isabelle
  imports Complex_Main "HOL-Library.FSet"
begin

section \<open>Data model of pagerank.py\<close>

text \<open>
  The corpus is a Python \<open>dict\<close> from page names to \<open>set\<close>s of page names. A
  \<open>dict\<close> iterates in insertion order and the in-place relaxation of
  \<open>iterate_pagerank\<close> depends on that order, so a dictionary is an association list
  in insertion order; a Python \<open>dict\<close> has no duplicate keys, which is the
  hypothesis \<open>distinct (keys d)\<close> of the theorems below. A Python \<open>set\<close> is a
  finite set. Python's \<open>float\<close> arithmetic is idealised as exact arithmetic on
  \<open>real\<close>: the theorems speak about the algorithm, not about rounding. For damping
  factors in \<open>(0,1)\<close> the two differ by rounding errors, which can also move a rank
  change across the threshold 0.001 and so add or save a pass. For extreme values
  outside \<open>(0,1)\<close> they differ in kind (at \<open>2^54\<close> the float \<open>1 - d\<close> loses the
  1 and the weights of a linked page cancel to 0; at 2 the iteration overflows), so
  nothing below is stated about such runs.
\<close>

datatype error = KeyError | ZeroDivisionError | IndexError | ValueError

type_synonym page = string
type_synonym corpus = "(page \<times> page fset) list"
type_synonym dist = "(page \<times> real) list"

definition keys :: "('k \<times> 'v) list \<Rightarrow> 'k list" where
  "keys d = map fst d"

definition dict_values :: "('k \<times> 'v) list \<Rightarrow> 'v list" where
  "dict_values d = map snd d"

text \<open>\<open>d[k]\<close>: raises \<open>KeyError\<close> on a missing key.\<close>

definition dict_get :: "('k \<times> 'v) list \<Rightarrow> 'k \<Rightarrow> error + 'v" where
  "dict_get d k = (case map_of d k of None \<Rightarrow> Inl KeyError | Some v \<Rightarrow> Inr v)"

text \<open>\<open>d[k] = v\<close>: an existing key keeps its position, a new key is appended.\<close>

fun dict_set :: "('k \<times> 'v) list \<Rightarrow> 'k \<Rightarrow> 'v \<Rightarrow> ('k \<times> 'v) list" where
  "dict_set [] k v = [(k, v)]"
| "dict_set ((k', v') # d) k v =
     (if k' = k then (k', v) # d else (k', v') # dict_set d k v)"

text \<open>\<open>for p in corpus: result[p] = v\<close> on a dictionary \<open>result\<close>.\<close>

definition fill :: "('k \<times> 'w) list \<Rightarrow> 'v \<Rightarrow> ('k \<times> 'v) list \<Rightarrow> ('k \<times> 'v) list" where
  "fill corpus v result = fold (\<lambda>p result. dict_set result p v) (keys corpus) result"

section \<open>transition_model\<close>

text \<open>
  \<open>for p in corpus[page]: result[p] += prob\<close> visits every element of the link set
  once, in the set's own order. A visit to a page that is no key of \<open>result\<close> raises
  \<open>KeyError\<close> and the function is left; otherwise each visited key gets \<open>prob\<close>
  added once, and additions to different keys commute, so the outcome does not depend on
  the order of the visits.
\<close>

definition add_to_links :: "dist \<Rightarrow> page fset \<Rightarrow> real \<Rightarrow> error + dist" where
  "add_to_links result links prob =
     (if \<exists>p \<in> fset links. p \<notin> set (keys result) then Inl KeyError
      else Inr (map (\<lambda>(p, v). (p, if p |\<in>| links then v + prob else v)) result))"

text \<open>
  The divisions by \<open>len(corpus)\<close> are reached only after \<open>corpus[page]\<close> has found
  \<open>page\<close>, so the divisor is at least 1; the division by \<open>len(corpus[page])\<close> is
  reached only when that length is not 0.
\<close>

definition transition_model :: "corpus \<Rightarrow> page \<Rightarrow> real \<Rightarrow> error + dist" where
  "transition_model corpus page damping_factor =
     (case dict_get corpus page of
        Inl e \<Rightarrow> Inl e
      | Inr links \<Rightarrow>
          if fcard links = 0 then
            (let prob = 1 / real (length corpus)
             in Inr (fill corpus prob []))
          else
            (let result = fill corpus ((1 - damping_factor) / real (length corpus)) [];
                 prob = damping_factor / real (fcard links)
             in add_to_links result links prob))"

section \<open>sample_pagerank\<close>

text \<open>
  \<open>random.choices(population, weights=w, k=1)[0]\<close> of CPython: the cumulative weights
  are accumulated, the total must be positive, one uniform draw \<open>u\<close> of
  \<open>random.random()\<close> is scaled by the total and located by \<open>bisect\<close> between
  \<open>0\<close> and \<open>n - 1\<close>. The draws are an input of the model: \<open>rnd i\<close> is the draw of
  the \<open>i\<close>-th call.
\<close>

fun accumulate :: "real \<Rightarrow> real list \<Rightarrow> real list" where
  "accumulate acc [] = []"
| "accumulate acc (w # ws) = (acc + w) # accumulate (acc + w) ws"

function bisect :: "real list \<Rightarrow> real \<Rightarrow> nat \<Rightarrow> nat \<Rightarrow> nat" where
  "bisect a x lo hi =
     (if lo < hi then
        (let mid = (lo + hi) div 2
         in if x < a ! mid then bisect a x lo mid else bisect a x (mid + 1) hi)
      else lo)"
  by pat_completeness auto
termination
  by (relation "measure (\<lambda>(a, x, lo, hi). hi - lo)") auto

definition choices :: "'a list \<Rightarrow> real list \<Rightarrow> real \<Rightarrow> error + 'a" where
  "choices population weights u =
     (let n = length population; cum_weights = accumulate 0 weights
      in if length cum_weights \<noteq> n then Inl ValueError
         else if cum_weights = [] then Inl IndexError
         else (let total = last cum_weights
               in if total \<le> 0 then Inl ValueError
                  else Inr (population ! bisect cum_weights (u * total) 0 (n - 1))))"

text \<open>\<open>result[current_page] += 1\<close>.\<close>

definition increment :: "(page \<times> int) list \<Rightarrow> page \<Rightarrow> error + (page \<times> int) list" where
  "increment result p =
     (case dict_get result p of
        Inl e \<Rightarrow> Inl e
      | Inr c \<Rightarrow> Inr (dict_set result p (c + 1)))"

text \<open>
  The sampling loop \<open>for _ in range(n)\<close>, from iteration \<open>i\<close> on with \<open>k\<close>
  iterations left; the state is the counter dictionary and the weights of the next draw
  (\<open>t_model.values()\<close>).
\<close>

fun sample_loop ::
  "corpus \<Rightarrow> real \<Rightarrow> (nat \<Rightarrow> real) \<Rightarrow> nat \<Rightarrow> nat \<Rightarrow> (page \<times> int) list \<times> dist
    \<Rightarrow> error + (page \<times> int) list \<times> dist" where
  "sample_loop corpus damping_factor rnd i 0 st = Inr st"
| "sample_loop corpus damping_factor rnd i (Suc k) (result, t_model) =
     (case choices (keys corpus) (dict_values t_model) (rnd i) of
        Inl e \<Rightarrow> Inl e
      | Inr current_page \<Rightarrow>
          (case increment result current_page of
             Inl e \<Rightarrow> Inl e
           | Inr result' \<Rightarrow>
               (case transition_model corpus current_page damping_factor of
                  Inl e \<Rightarrow> Inl e
                | Inr t_model' \<Rightarrow>
                    sample_loop corpus damping_factor rnd (Suc i) k (result', t_model'))))"

text \<open>The visit counters after the sampling loop (\<open>range(n)\<close> is empty for \<open>n \<le> 0\<close>).\<close>

definition sample_counts ::
  "corpus \<Rightarrow> real \<Rightarrow> int \<Rightarrow> (nat \<Rightarrow> real) \<Rightarrow> error + (page \<times> int) list" where
  "sample_counts corpus damping_factor n rnd =
     (case sample_loop corpus damping_factor rnd 0 (nat n)
             (fill corpus 0 [], fill corpus 1 []) of
        Inl e \<Rightarrow> Inl e
      | Inr (result, t_model) \<Rightarrow> Inr result)"

text \<open>\<open>for p in result: result[p] /= n\<close>: the first division by \<open>n = 0\<close> raises.\<close>

definition normalise :: "(page \<times> int) list \<Rightarrow> int \<Rightarrow> error + dist" where
  "normalise result n =
     (if result \<noteq> [] \<and> n = 0 then Inl ZeroDivisionError
      else Inr (map (\<lambda>(p, c). (p, real_of_int c / real_of_int n)) result))"

definition sample_pagerank ::
  "corpus \<Rightarrow> real \<Rightarrow> int \<Rightarrow> (nat \<Rightarrow> real) \<Rightarrow> error + dist" where
  "sample_pagerank corpus damping_factor n rnd =
     (case sample_counts corpus damping_factor n rnd of
        Inl e \<Rightarrow> Inl e
      | Inr result \<Rightarrow> normalise result n)"

section \<open>iterate_pagerank\<close>

text \<open>
  The inner loop \<open>for linker in corpus\<close> over the items still to visit, with the
  running \<open>sigma\<close>. The divisors are \<open>len(corpus)\<close>, at least 1 inside the loop, and
  \<open>len(corpus[linker])\<close> guarded by the test before it.
\<close>

fun sigma_loop :: "corpus \<Rightarrow> dist \<Rightarrow> page \<Rightarrow> corpus \<Rightarrow> real \<Rightarrow> error + real" where
  "sigma_loop corpus result page [] sigma = Inr sigma"
| "sigma_loop corpus result page ((linker, links) # rest) sigma =
     (if fcard links = 0 then
        (case dict_get result linker of
           Inl e \<Rightarrow> Inl e
         | Inr r \<Rightarrow> sigma_loop corpus result page rest (sigma + r / real (length corpus)))
      else if page |\<in>| links then
        (case dict_get result linker of
           Inl e \<Rightarrow> Inl e
         | Inr r \<Rightarrow> sigma_loop corpus result page rest (sigma + r / real (fcard links)))
      else sigma_loop corpus result page rest sigma)"

text \<open>
  The loop \<open>for page in result\<close> of one pass over the pages still to visit; the state is
  the flag \<open>go\<close> and the dictionary \<open>result\<close>, which is updated in place.
\<close>

fun pass_loop :: "corpus \<Rightarrow> real \<Rightarrow> page list \<Rightarrow> bool \<times> dist \<Rightarrow> error + bool \<times> dist" where
  "pass_loop corpus damping_factor [] st = Inr st"
| "pass_loop corpus damping_factor (page # pages) (go, result) =
     (case sigma_loop corpus result page corpus 0 of
        Inl e \<Rightarrow> Inl e
      | Inr sigma \<Rightarrow>
          (let new_result = (1 - damping_factor) / real (length corpus) + damping_factor * sigma
           in case dict_get result page of
                Inl e \<Rightarrow> Inl e
              | Inr old \<Rightarrow>
                  pass_loop corpus damping_factor pages
                    (go \<or> \<bar>new_result - old\<bar> > 1 / 1000, dict_set result page new_result)))"

text \<open>One full pass: the body of \<open>while True\<close> up to the test of \<open>go\<close>.\<close>

definition iterate_pass :: "corpus \<Rightarrow> real \<Rightarrow> dist \<Rightarrow> error + bool \<times> dist" where
  "iterate_pass corpus damping_factor result =
     pass_loop corpus damping_factor (keys result) (False, result)"

text \<open>\<open>while True\<close>: the value \<open>None\<close> stands for a loop that never leaves.\<close>

partial_function (option) iterate_loop :: "corpus \<Rightarrow> real \<Rightarrow> dist \<Rightarrow> (error + dist) option" where
  "iterate_loop corpus damping_factor result =
     (case iterate_pass corpus damping_factor result of
        Inl e \<Rightarrow> Some (Inl e)
      | Inr (go, result') \<Rightarrow>
          if go then iterate_loop corpus damping_factor result' else Some (Inr result'))"

definition iterate_pagerank :: "corpus \<Rightarrow> real \<Rightarrow> (error + dist) option" where
  "iterate_pagerank corpus damping_factor =
     iterate_loop corpus damping_factor (fill corpus (1 / real (length corpus)) [])"

section \<open>Graph invariant and example graphs\<close>

text \<open>
  The self-contained universe of the data model: every page that occurs in a link set is
  a key of the graph.
\<close>

definition closed :: "corpus \<Rightarrow> bool" where
  "closed corpus = (\<forall>(p, links) \<in> set corpus. fset links \<subseteq> set (keys corpus))"

text \<open>Pages \<open>a\<close> and \<open>b\<close> link to \<open>c\<close>, and \<open>c\<close> is a sink.\<close>

definition three_pages :: corpus where
  "three_pages = [(''a'', {|''c''|}), (''b'', {|''c''|}), (''c'', {||})]"

text \<open>A sequence of draws of \<open>random.random()\<close> that are all \<open>1/2\<close>.\<close>

definition draws_half :: "nat \<Rightarrow> real" where
  "draws_half i = 1 / 2"

section \<open>The update rule in the specification's words\<close>

text \<open>The rank of a page in a distribution, as a total function (0 for a page that is no key).\<close>

definition lookup :: "dist \<Rightarrow> page \<Rightarrow> real" where
  "lookup result p = (case map_of result p of None \<Rightarrow> 0 | Some v \<Rightarrow> v)"

text \<open>
  The contribution of one page \<open>linker\<close> of the universe to the new rank of \<open>p\<close>
  under the ranks \<open>rank\<close>: \<open>rank(linker)/N\<close> if \<open>linker\<close> is a sink, otherwise
  \<open>rank(linker)/|links|\<close> if the link set of \<open>linker\<close> contains \<open>p\<close>, otherwise 0.
\<close>

definition contribution :: "corpus \<Rightarrow> (page \<Rightarrow> real) \<Rightarrow> page \<Rightarrow> page \<times> page fset \<Rightarrow> real" where
  "contribution corpus rank p =
     (\<lambda>(linker, links).
        if links = {||} then rank linker / real (length corpus)
        else if p |\<in>| links then rank linker / real (fcard links)
        else 0)"

text \<open>
  \<open>new_rank(p) = (1 - damping_factor)/N + damping_factor * \<Sigma>\<close> of the contributions of
  every page of the universe.
\<close>

definition new_rank :: "corpus \<Rightarrow> real \<Rightarrow> (page \<Rightarrow> real) \<Rightarrow> page \<Rightarrow> real" where
  "new_rank corpus damping_factor rank p =
     (1 - damping_factor) / real (length corpus)
       + damping_factor * sum_list (map (contribution corpus rank p) corpus)"

text \<open>
  The effect of the loop \<open>for page in result\<close> on the ranks, read as a function from
  pages to ranks: the pages are relaxed one after the other, and each new rank is stored
  before the next page is treated. Lemma \<open>pass_loop_relax\<close> below proves that this is
  what \<open>pass_loop\<close> computes.
\<close>

fun relax :: "corpus \<Rightarrow> real \<Rightarrow> page list \<Rightarrow> (page \<Rightarrow> real) \<Rightarrow> page \<Rightarrow> real" where
  "relax corpus damping_factor [] rank = rank"
| "relax corpus damping_factor (p # ps) rank =
     relax corpus damping_factor ps (rank(p := new_rank corpus damping_factor rank p))"

section \<open>Quantities of the convergence proof\<close>

text \<open>
  The share of the rank of a linker that the update rule passes to \<open>p\<close>: the
  contribution of the linker when its rank is 1.
\<close>

definition weight :: "corpus \<Rightarrow> page \<Rightarrow> page \<times> page fset \<Rightarrow> real" where
  "weight corpus p = contribution corpus (\<lambda>linker. 1) p"

text \<open>The ranks after one full pass over the pages of the graph.\<close>

definition pass_ranks :: "corpus \<Rightarrow> real \<Rightarrow> (page \<Rightarrow> real) \<Rightarrow> page \<Rightarrow> real" where
  "pass_ranks corpus damping_factor = relax corpus damping_factor (keys corpus)"

text \<open>
  The share of the rank of the \<open>j\<close>-th page that goes to pages treated after it in a
  pass, and the weighted sum of rank changes that every pass shrinks by the factor
  \<open>damping_factor\<close>.
\<close>

definition later_weight :: "corpus \<Rightarrow> nat \<Rightarrow> real" where
  "later_weight corpus j =
     (\<Sum>i<length corpus. if j < i then weight corpus (keys corpus ! i) (corpus ! j) else 0)"

definition potential :: "corpus \<Rightarrow> real \<Rightarrow> (page \<Rightarrow> real) \<Rightarrow> real" where
  "potential corpus damping_factor e =
     (\<Sum>j<length corpus. (1 - damping_factor * later_weight corpus j) * \<bar>e (keys corpus ! j)\<bar>)"

section \<open>Dictionaries\<close>

lemma keys_dict_set:
  "keys (dict_set d k v) = (if k \<in> set (keys d) then keys d else keys d @ [k])"
  by (induction d) (force simp: keys_def)+

lemma dict_set_append_new:
  "k \<notin> set (keys d) \<Longrightarrow> dict_set d k v = d @ [(k, v)]"
  by (induction d) (auto simp: keys_def)

lemma fold_dict_set_fresh:
  "distinct ks \<Longrightarrow> set ks \<inter> set (keys r) = {} \<Longrightarrow>
   fold (\<lambda>p result. dict_set result p v) ks r = r @ map (\<lambda>p. (p, v)) ks"
proof (induction ks arbitrary: r)
  case Nil
  then show ?case by simp
next
  case (Cons k ks)
  have fresh: "k \<notin> set (keys r)" using Cons.prems by auto
  have "set ks \<inter> set (keys (r @ [(k, v)])) = {}"
    using Cons.prems by (auto simp: keys_def)
  with Cons show ?case
    by (simp add: dict_set_append_new [OF fresh])
qed

lemma fill_empty:
  "distinct (keys corpus) \<Longrightarrow> fill corpus v [] = map (\<lambda>p. (p, v)) (keys corpus)"
  unfolding fill_def using fold_dict_set_fresh [of "keys corpus" "[]" v]
  by (simp add: keys_def)

lemma keys_fill_empty:
  "distinct (keys corpus) \<Longrightarrow> keys (fill corpus v []) = keys corpus"
  by (simp add: fill_empty) (simp add: keys_def comp_def)

lemma dict_get_member:
  "distinct (keys d) \<Longrightarrow> (k, v) \<in> set d \<Longrightarrow> dict_get d k = Inr v"
  by (simp add: dict_get_def keys_def)

lemma dict_get_Inr_member:
  "dict_get d k = Inr v \<Longrightarrow> (k, v) \<in> set d"
  by (auto simp: dict_get_def split: option.splits dest: map_of_SomeD)

lemma dict_get_Inl:
  "dict_get d k = Inl e \<Longrightarrow> k \<notin> set (keys d) \<and> e = KeyError"
  by (auto simp: dict_get_def keys_def map_of_eq_None_iff split: option.splits)

lemma dict_get_const:
  "k \<in> set ks \<Longrightarrow> dict_get (map (\<lambda>p. (p, v)) ks) k = Inr v"
  by (induction ks) (auto simp: dict_get_def)

lemma three_pages_keys: "keys three_pages = [''a'', ''b'', ''c'']"
  by (simp add: three_pages_def keys_def)

section \<open>The transition model\<close>

lemma sum_list_indicator:
  "sum_list (map (\<lambda>p. if P p then (a::real) else 0) ks) = real (length (filter P ks)) * a"
  by (induction ks) (auto simp: algebra_simps)

lemma length_filter_links:
  assumes "distinct ks" and "fset links \<subseteq> set ks"
  shows "length (filter (\<lambda>p. p |\<in>| links) ks) = fcard links"
proof -
  have "set (filter (\<lambda>p. p |\<in>| links) ks) = fset links"
    using assms by auto
  moreover have "distinct (filter (\<lambda>p. p |\<in>| links) ks)"
    using assms by simp
  ultimately have "length (filter (\<lambda>p. p |\<in>| links) ks) = card (fset links)"
    using distinct_card by metis
  then show ?thesis by (simp add: fcard.rep_eq)
qed

lemma add_to_links_base:
  assumes "fset links \<subseteq> set ks"
  shows "add_to_links (map (\<lambda>p. (p, b)) ks) links prob
           = Inr (map (\<lambda>p. (p, b + (if p |\<in>| links then prob else 0))) ks)"
  using assms by (auto simp: add_to_links_def keys_def comp_def)

lemma transition_model_links:
  assumes "distinct (keys corpus)" and "(page, links) \<in> set corpus"
    and "fset links \<subseteq> set (keys corpus)" and "links \<noteq> {||}"
  shows "transition_model corpus page damping_factor
           = Inr (map (\<lambda>p. (p, (1 - damping_factor) / real (length corpus)
                                + (if p |\<in>| links then damping_factor / real (fcard links) else 0)))
                      (keys corpus))"
  using assms
  by (simp add: transition_model_def dict_get_member fill_empty add_to_links_base Let_def)

lemma sum_list_base_plus_links:
  assumes "distinct ks" and "fset links \<subseteq> set ks" and "links \<noteq> {||}" and "ks \<noteq> []"
  shows "sum_list (map (\<lambda>p. (1 - d) / real (length ks)
                          + (if p |\<in>| links then d / real (fcard links) else 0)) ks) = (1::real)"
proof -
  have k: "real (fcard links) \<noteq> 0" using assms(3) by simp
  have n: "real (length ks) \<noteq> 0" using assms(4) by simp
  have "sum_list (map (\<lambda>p. (1 - d) / real (length ks)
                          + (if p |\<in>| links then d / real (fcard links) else 0)) ks)
        = sum_list (map (\<lambda>p. (1 - d) / real (length ks)) ks)
          + sum_list (map (\<lambda>p. if p |\<in>| links then d / real (fcard links) else 0) ks)"
    by (simp add: sum_list_addf)
  also have "sum_list (map (\<lambda>p. (1 - d) / real (length ks)) ks) = 1 - d"
    using n by (simp add: sum_list_triv)
  also have "sum_list (map (\<lambda>p. if p |\<in>| links then d / real (fcard links) else 0) ks) = d"
    using k by (simp add: sum_list_indicator length_filter_links [OF assms(1,2)])
  finally show ?thesis by simp
qed

text \<open>
  Claim C3. For a page of the graph whose link set is empty, \<open>transition_model\<close>
  returns the uniform distribution: every page of the universe, in the graph's order, with
  probability \<open>1/N\<close>, whatever the damping factor is.
\<close>

theorem sink_uniform:
  assumes "distinct (keys corpus)" and "(page, {||}) \<in> set corpus"
  shows "transition_model corpus page damping_factor
           = Inr (map (\<lambda>p. (p, 1 / real (length corpus))) (keys corpus))"
  using assms by (simp add: transition_model_def dict_get_member fill_empty)

theorem sink_uniform_witness:
  "distinct (keys three_pages) \<and> (''c'', {||}) \<in> set three_pages
   \<and> transition_model three_pages ''c'' (85 / 100)
       = Inr [(''a'', 1 / 3), (''b'', 1 / 3), (''c'', 1 / 3)]"
proof -
  have h1: "distinct (keys three_pages)" by (simp add: three_pages_keys)
  have h2: "(''c'', {||}) \<in> set three_pages" by (simp add: three_pages_def)
  show ?thesis
    using h1 h2 sink_uniform [OF h1 h2, of "85 / 100"]
    by (simp add: three_pages_keys) (simp add: three_pages_def)
qed

text \<open>
  Claim C2. For a page of the graph with \<open>k \<ge> 1\<close> outgoing links, all of them pages
  of the universe, and a damping factor in \<open>(0,1)\<close>, \<open>transition_model\<close> returns a
  distribution over exactly the pages of the universe, in which a page linked from the
  given page has probability \<open>(1 - damping_factor)/N + damping_factor/k\<close> and every other
  page \<open>(1 - damping_factor)/N\<close>; the values sum to 1 (exactly, in exact arithmetic, hence
  within \<open>1e-9\<close>).
\<close>

theorem transition_model_linked:
  assumes "distinct (keys corpus)" and "(page, links) \<in> set corpus"
    and "fset links \<subseteq> set (keys corpus)"
    and "1 \<le> fcard links" and "0 < damping_factor" and "damping_factor < 1"
  shows "\<exists>result. transition_model corpus page damping_factor = Inr result
           \<and> keys result = keys corpus
           \<and> (\<forall>p \<in> set (keys corpus).
                 dict_get result p =
                   Inr (if p |\<in>| links
                        then (1 - damping_factor) / real (length corpus)
                               + damping_factor / real (fcard links)
                        else (1 - damping_factor) / real (length corpus)))
           \<and> sum_list (dict_values result) = 1
           \<and> \<bar>sum_list (dict_values result) - 1\<bar> \<le> 1 / 10 ^ 9"
proof -
  let ?f = "\<lambda>p. (1 - damping_factor) / real (length corpus)
                 + (if p |\<in>| links then damping_factor / real (fcard links) else 0)"
  let ?result = "map (\<lambda>p. (p, ?f p)) (keys corpus)"
  have ne: "links \<noteq> {||}" using assms(4) by (auto simp: fcard_fempty)
  have nonempty: "keys corpus \<noteq> []" using assms(2) by (auto simp: keys_def)
  have tm: "transition_model corpus page damping_factor = Inr ?result"
    by (rule transition_model_links [OF assms(1,2,3) ne])
  have k: "keys ?result = keys corpus"
    by (simp add: keys_def comp_def)
  have g: "dict_get ?result p = Inr (?f p)" if "p \<in> set (keys corpus)" for p
    using that assms(1) by (intro dict_get_member) (auto simp: keys_def comp_def)
  have s: "sum_list (dict_values ?result) = 1"
    using sum_list_base_plus_links [OF assms(1,3) ne nonempty, of damping_factor]
    by (simp add: dict_values_def comp_def keys_def)
  show ?thesis
    using tm k g s by (intro exI [of _ ?result]) auto
qed

theorem transition_model_linked_witness:
  "distinct (keys three_pages) \<and> (''a'', {|''c''|}) \<in> set three_pages
   \<and> fset {|''c''|} \<subseteq> set (keys three_pages) \<and> 1 \<le> fcard {|''c''|}
   \<and> (0::real) < 85 / 100 \<and> (85 / 100 :: real) < 1
   \<and> (\<exists>result. transition_model three_pages ''a'' (85 / 100) = Inr result
           \<and> keys result = keys three_pages
           \<and> (\<forall>p \<in> set (keys three_pages).
                 dict_get result p =
                   Inr (if p |\<in>| {|''c''|}
                        then (1 - 85 / 100) / real (length three_pages)
                               + (85 / 100) / real (fcard {|''c''|})
                        else (1 - 85 / 100) / real (length three_pages)))
           \<and> sum_list (dict_values result) = 1
           \<and> \<bar>sum_list (dict_values result) - 1\<bar> \<le> 1 / 10 ^ 9)"
proof -
  have h1: "distinct (keys three_pages)" by (simp add: three_pages_keys)
  have h2: "(''a'', {|''c''|}) \<in> set three_pages" by (simp add: three_pages_def)
  have h3: "fset {|''c''|} \<subseteq> set (keys three_pages)" by (simp add: three_pages_keys)
  have h4: "1 \<le> fcard {|''c''|}" by (simp add: fcard_finsert_if fcard_fempty)
  have h5: "(0::real) < 85 / 100" by simp
  have h6: "(85 / 100 :: real) < 1" by simp
  show ?thesis
    using h1 h2 h3 h4 h5 h6 transition_model_linked [OF h1 h2 h3 h4 h5 h6] by blast
qed

section \<open>Sampling\<close>

lemma length_accumulate: "length (accumulate acc ws) = length ws"
  by (induction ws arbitrary: acc) auto

lemma last_accumulate:
  "ws \<noteq> [] \<Longrightarrow> last (accumulate acc ws) = acc + sum_list ws"
proof (induction ws arbitrary: acc)
  case Nil
  then show ?case by simp
next
  case (Cons w ws)
  show ?case
  proof (cases ws)
    case Nil
    then show ?thesis by simp
  next
    case (Cons v vs)
    then have "accumulate (acc + w) ws \<noteq> []" by simp
    with Cons.IH [of "acc + w"] Cons show ?thesis by simp
  qed
qed

lemma bisect_le: "lo \<le> hi \<Longrightarrow> bisect a x lo hi \<le> hi"
proof (induction a x lo hi rule: bisect.induct)
  case (1 a x lo hi)
  show ?case
  proof (cases "lo < hi")
    case False
    with "1.prems" show ?thesis by simp
  next
    case True
    let ?mid = "(lo + hi) div 2"
    have mid: "lo \<le> ?mid" "?mid < hi" using True by auto
    show ?thesis
    proof (cases "x < a ! ?mid")
      case lt: True
      have "bisect a x lo ?mid \<le> ?mid" using "1.IH"(1) True lt mid by simp
      then show ?thesis using True lt mid by (subst bisect.simps) (simp add: Let_def)
    next
      case ge: False
      have "bisect a x (?mid + 1) hi \<le> hi" using "1.IH"(2) True ge mid by simp
      then show ?thesis using True ge by (subst bisect.simps) (simp add: Let_def)
    qed
  qed
qed

lemma choices_ok:
  assumes "length weights = length population" and "population \<noteq> []"
    and "0 < sum_list weights"
  shows "\<exists>x \<in> set population. choices population weights u = Inr x"
proof -
  let ?cum = "accumulate 0 weights"
  have w: "weights \<noteq> []" using assms(1,2) by auto
  have len: "length ?cum = length population" by (simp add: length_accumulate assms(1))
  have ne: "?cum \<noteq> []" using len assms(2) by auto
  have total: "last ?cum = sum_list weights" using last_accumulate [OF w, of 0] by simp
  have "bisect ?cum (u * sum_list weights) 0 (length population - 1) \<le> length population - 1"
    by (rule bisect_le) simp
  then have idx: "bisect ?cum (u * sum_list weights) 0 (length population - 1) < length population"
    using assms(2) by (cases population) auto
  have "choices population weights u
          = Inr (population ! bisect ?cum (u * sum_list weights) 0 (length population - 1))"
    using len ne total assms(3) by (simp add: choices_def Let_def)
  with idx show ?thesis by (metis nth_mem)
qed

lemma dict_get_key:
  "k \<in> set (keys d) \<Longrightarrow> \<exists>v. dict_get d k = Inr v \<and> (k, v) \<in> set d"
  by (cases "dict_get d k") (auto dest: dict_get_Inl dict_get_Inr_member)

lemma sum_list_dict_set:
  "dict_get d k = Inr c \<Longrightarrow>
   sum_list (dict_values (dict_set d k v)) = sum_list (dict_values d) - c + (v::int)"
  by (induction d) (auto simp: dict_get_def dict_values_def split: option.splits if_splits)

lemma set_values_dict_set:
  "set (dict_values (dict_set d k v)) \<subseteq> insert v (set (dict_values d))"
  by (induction d) (force simp: dict_values_def split: if_splits)+

lemma increment_ok:
  assumes "p \<in> set (keys result)"
  shows "\<exists>result'. increment result p = Inr result' \<and> keys result' = keys result
           \<and> sum_list (dict_values result') = sum_list (dict_values result) + 1
           \<and> ((\<forall>c \<in> set (dict_values result). 0 \<le> c) \<longrightarrow> (\<forall>c \<in> set (dict_values result'). 0 \<le> c))"
proof -
  obtain c where c: "dict_get result p = Inr c" "(p, c) \<in> set result"
    using dict_get_key [OF assms] by blast
  have c_val: "c \<in> set (dict_values result)"
    using c(2) by (force simp: dict_values_def)
  have "increment result p = Inr (dict_set result p (c + 1))"
    by (simp add: increment_def c(1))
  moreover have "keys (dict_set result p (c + 1)) = keys result"
    using assms by (simp add: keys_dict_set)
  moreover have "sum_list (dict_values (dict_set result p (c + 1))) = sum_list (dict_values result) + 1"
    by (simp add: sum_list_dict_set [OF c(1)])
  moreover have "(\<forall>c \<in> set (dict_values result). 0 \<le> c)
      \<longrightarrow> (\<forall>c \<in> set (dict_values (dict_set result p (c + 1))). 0 \<le> c)"
    using set_values_dict_set [of result p "c + 1"] c_val by fastforce
  ultimately show ?thesis by blast
qed

lemma transition_model_total:
  assumes "distinct (keys corpus)" and "closed corpus" and "page \<in> set (keys corpus)"
  shows "\<exists>t. transition_model corpus page damping_factor = Inr t
           \<and> keys t = keys corpus \<and> sum_list (dict_values t) = 1"
proof -
  obtain links where links: "(page, links) \<in> set corpus"
    using dict_get_key [OF assms(3)] by blast
  have sub: "fset links \<subseteq> set (keys corpus)"
    using assms(2) links by (auto simp: closed_def)
  have nonempty: "keys corpus \<noteq> []" using assms(3) by auto
  have n: "real (length corpus) \<noteq> 0" using nonempty by (auto simp: keys_def)
  show ?thesis
  proof (cases "links = {||}")
    case True
    have "transition_model corpus page damping_factor
            = Inr (map (\<lambda>p. (p, 1 / real (length corpus))) (keys corpus))"
      using assms(1) links True
      by (simp add: transition_model_def dict_get_member fill_empty)
    moreover have "sum_list (dict_values (map (\<lambda>p. (p, 1 / real (length corpus))) (keys corpus))) = 1"
      using n by (simp add: dict_values_def comp_def sum_list_triv keys_def)
    moreover have "keys (map (\<lambda>p. (p, 1 / real (length corpus))) (keys corpus)) = keys corpus"
      by (simp add: keys_def comp_def)
    ultimately show ?thesis by blast
  next
    case False
    let ?f = "\<lambda>p. (1 - damping_factor) / real (length corpus)
                   + (if p |\<in>| links then damping_factor / real (fcard links) else 0)"
    have "transition_model corpus page damping_factor = Inr (map (\<lambda>p. (p, ?f p)) (keys corpus))"
      by (rule transition_model_links [OF assms(1) links sub False])
    moreover have "sum_list (dict_values (map (\<lambda>p. (p, ?f p)) (keys corpus))) = 1"
      using sum_list_base_plus_links [OF assms(1) sub False nonempty, of damping_factor]
      by (simp add: dict_values_def comp_def keys_def)
    moreover have "keys (map (\<lambda>p. (p, ?f p)) (keys corpus)) = keys corpus"
      by (simp add: keys_def comp_def)
    ultimately show ?thesis by blast
  qed
qed

lemma sample_loop_ok:
  assumes "distinct (keys corpus)" and "closed corpus" and "corpus \<noteq> []"
    and "keys result = keys corpus" and "keys t_model = keys corpus"
    and "0 < sum_list (dict_values t_model)"
    and "\<forall>c \<in> set (dict_values result). 0 \<le> c"
  shows "\<exists>result' t_model'.
           sample_loop corpus damping_factor rnd i k (result, t_model) = Inr (result', t_model')
           \<and> keys result' = keys corpus
           \<and> sum_list (dict_values result') = sum_list (dict_values result) + int k
           \<and> (\<forall>c \<in> set (dict_values result'). 0 \<le> c)"
  using assms(4-7)
proof (induction k arbitrary: i result t_model)
  case 0
  then show ?case by simp
next
  case (Suc k)
  have len: "length (dict_values t_model) = length (keys corpus)"
    using Suc.prems(2) by (metis dict_values_def keys_def length_map)
  have pop: "keys corpus \<noteq> []" using assms(3) by (simp add: keys_def)
  obtain current_page where
    cp: "current_page \<in> set (keys corpus)"
        "choices (keys corpus) (dict_values t_model) (rnd i) = Inr current_page"
    using choices_ok [OF len pop Suc.prems(3)] by blast
  have "current_page \<in> set (keys result)" using cp(1) Suc.prems(1) by simp
  from increment_ok [OF this] obtain result1 where
    r1: "increment result current_page = Inr result1" "keys result1 = keys result"
        "sum_list (dict_values result1) = sum_list (dict_values result) + 1"
        "\<forall>c \<in> set (dict_values result1). 0 \<le> c"
    using Suc.prems(4) by blast
  obtain t1 where
    t1: "transition_model corpus current_page damping_factor = Inr t1"
        "keys t1 = keys corpus" "sum_list (dict_values t1) = 1"
    using transition_model_total [OF assms(1,2) cp(1)] by blast
  have k1: "keys result1 = keys corpus" using r1(2) Suc.prems(1) by simp
  have pos: "0 < sum_list (dict_values t1)" using t1(3) by simp
  obtain result' t_model' where
    rest: "sample_loop corpus damping_factor rnd (Suc i) k (result1, t1) = Inr (result', t_model')"
          "keys result' = keys corpus"
          "sum_list (dict_values result') = sum_list (dict_values result1) + int k"
          "\<forall>c \<in> set (dict_values result'). 0 \<le> c"
    using Suc.IH [OF k1 t1(2) pos r1(4)] by blast
  have "sample_loop corpus damping_factor rnd i (Suc k) (result, t_model) = Inr (result', t_model')"
    by (simp add: cp(2) r1(1) t1(1) rest(1))
  moreover have "sum_list (dict_values result') = sum_list (dict_values result) + int (Suc k)"
    using rest(3) r1(3) by simp
  ultimately show ?case using rest(2,4) by blast
qed

lemma sum_list_divide:
  "sum_list (map (\<lambda>x. f x / (n::real)) xs) = sum_list (map f xs) / n"
  by (induction xs) (auto simp: add_divide_distrib)

lemma dict_values_const: "dict_values (map (\<lambda>p. (p, v)) ks) = replicate (length ks) v"
  by (induction ks) (auto simp: dict_values_def)

lemma sample_counts_ok:
  assumes "distinct (keys corpus)" and "closed corpus" and "corpus \<noteq> []"
  shows "\<exists>counts. sample_counts corpus damping_factor n rnd = Inr counts
           \<and> keys counts = keys corpus
           \<and> (\<forall>c \<in> set (dict_values counts). 0 \<le> c)
           \<and> sum_list (dict_values counts) = int (nat n)"
proof -
  let ?zero = "fill corpus (0::int) []" and ?one = "fill corpus (1::real) []"
  have pop: "keys corpus \<noteq> []" using assms(3) by (simp add: keys_def)
  have z1: "keys ?zero = keys corpus" and o1: "keys ?one = keys corpus"
    using assms(1) by (simp_all add: keys_fill_empty)
  have z: "\<forall>c \<in> set (dict_values ?zero). 0 \<le> c" "sum_list (dict_values ?zero) = 0"
    using assms(1) by (simp_all add: fill_empty dict_values_const sum_list_replicate)
  have o: "0 < sum_list (dict_values ?one)"
    using assms(1) pop by (simp add: fill_empty dict_values_const sum_list_replicate)
  obtain counts t where
    loop: "sample_loop corpus damping_factor rnd 0 (nat n) (?zero, ?one) = Inr (counts, t)"
          "keys counts = keys corpus"
          "sum_list (dict_values counts) = sum_list (dict_values ?zero) + int (nat n)"
          "\<forall>c \<in> set (dict_values counts). 0 \<le> c"
    using sample_loop_ok [OF assms(1,2,3) z1 o1 o z(1)] by blast
  have "sample_counts corpus damping_factor n rnd = Inr counts"
    by (simp add: sample_counts_def loop(1))
  then show ?thesis using loop(2,3,4) z(2) by auto
qed

lemma sum_list_normalised:
  assumes "sum_list (dict_values counts) = n" and "n \<noteq> 0"
  shows "sum_list (dict_values (map (\<lambda>(p, c). (p, real_of_int c / real_of_int n)) counts)) = 1"
proof -
  let ?result = "map (\<lambda>(p, c). (p, real_of_int c / real_of_int n)) counts"
  have "dict_values ?result = map (\<lambda>c. real_of_int c / real_of_int n) (dict_values counts)"
    by (simp add: dict_values_def comp_def case_prod_unfold)
  then have "sum_list (dict_values ?result) = real_of_int (sum_list (dict_values counts)) / real_of_int n"
    using sum_list_of_int [of "dict_values counts", where ?'a = real]
    by (simp add: sum_list_divide)
  then show ?thesis using assms by simp
qed

text \<open>
  Claim C9. For a non-empty graph that satisfies the invariant of the data model, a
  damping factor in \<open>(0,1)\<close>, a positive sample count \<open>n\<close> and any sequence of random
  draws, \<open>sample_pagerank\<close> returns without error; every returned value is a visit
  counter divided by \<open>n\<close>, the counters are non-negative integers that sum to exactly
  \<open>n\<close>, the keys of the result are the pages of the universe, and the returned values
  sum to exactly 1.
\<close>

theorem sample_pagerank_counts:
  assumes "distinct (keys corpus)" and "closed corpus" and "corpus \<noteq> []"
    and "0 < damping_factor" and "damping_factor < 1" and "0 < n"
  shows "\<exists>counts. sample_counts corpus damping_factor n rnd = Inr counts
           \<and> (\<forall>c \<in> set (dict_values counts). 0 \<le> c)
           \<and> sum_list (dict_values counts) = n
           \<and> sample_pagerank corpus damping_factor n rnd
                = Inr (map (\<lambda>(p, c). (p, real_of_int c / real_of_int n)) counts)
           \<and> keys (map (\<lambda>(p, c). (p, real_of_int c / real_of_int n)) counts) = keys corpus
           \<and> sum_list (dict_values (map (\<lambda>(p, c). (p, real_of_int c / real_of_int n)) counts)) = 1"
proof -
  obtain counts where
    sc: "sample_counts corpus damping_factor n rnd = Inr counts"
        "keys counts = keys corpus" "\<forall>c \<in> set (dict_values counts). 0 \<le> c"
        "sum_list (dict_values counts) = int (nat n)"
    using sample_counts_ok [OF assms(1,2,3)] by blast
  have total: "sum_list (dict_values counts) = n" using sc(4) assms(6) by simp
  let ?result = "map (\<lambda>(p, c). (p, real_of_int c / real_of_int n)) counts"
  have sp: "sample_pagerank corpus damping_factor n rnd = Inr ?result"
    using assms(6) by (simp add: sample_pagerank_def sc(1) normalise_def)
  have kr: "keys ?result = keys corpus"
    using sc(2) by (simp add: keys_def comp_def case_prod_unfold)
  have sr: "sum_list (dict_values ?result) = 1"
    using sum_list_normalised [OF total] assms(6) by simp
  show ?thesis using sc(1,3) total sp kr sr by blast
qed

lemma closed_three_pages: "closed three_pages"
  by (simp add: closed_def three_pages_def keys_def)

theorem sample_pagerank_counts_witness:
  "distinct (keys three_pages) \<and> closed three_pages \<and> three_pages \<noteq> []
   \<and> (0::real) < 85 / 100 \<and> (85 / 100 :: real) < 1 \<and> (0::int) < 5
   \<and> (\<exists>counts. sample_counts three_pages (85 / 100) 5 draws_half = Inr counts
           \<and> (\<forall>c \<in> set (dict_values counts). 0 \<le> c)
           \<and> sum_list (dict_values counts) = 5
           \<and> sample_pagerank three_pages (85 / 100) 5 draws_half
                = Inr (map (\<lambda>(p, c). (p, real_of_int c / real_of_int 5)) counts)
           \<and> keys (map (\<lambda>(p, c). (p, real_of_int c / real_of_int 5)) counts) = keys three_pages
           \<and> sum_list (dict_values (map (\<lambda>(p, c). (p, real_of_int c / real_of_int 5)) counts)) = 1)"
proof -
  have h1: "distinct (keys three_pages)" by (simp add: three_pages_keys)
  have h3: "three_pages \<noteq> []" by (simp add: three_pages_def)
  have h4: "(0::real) < 85 / 100" and h5: "(85 / 100 :: real) < 1" and h6: "(0::int) < 5"
    by simp_all
  show ?thesis
    using h1 closed_three_pages h3 h4 h5 h6
      sample_pagerank_counts [OF h1 closed_three_pages h3 h4 h5 h6, of draws_half]
    by blast
qed

text \<open>
  Claim C5, as amended. \<open>sample_pagerank\<close> does not validate the sample count. For
  \<open>n \<le> 0\<close> the sampling loop does not run; then with \<open>n = 0\<close> and a non-empty graph
  the final division raises \<open>ZeroDivisionError\<close>, and in every other case (a negative
  \<open>n\<close>, or an empty graph) the call returns the distribution that maps every page to 0.
\<close>

theorem sample_pagerank_nonpositive:
  assumes "distinct (keys corpus)" and "n \<le> 0"
  shows "sample_pagerank corpus damping_factor n rnd
           = (if corpus \<noteq> [] \<and> n = 0 then Inl ZeroDivisionError
              else Inr (map (\<lambda>p. (p, 0)) (keys corpus)))"
  using assms
  by (simp add: sample_pagerank_def sample_counts_def normalise_def fill_empty keys_def comp_def)

theorem sample_pagerank_nonpositive_witness:
  "distinct (keys three_pages) \<and> (0::int) \<le> 0
   \<and> sample_pagerank three_pages (85 / 100) 0 draws_half = Inl ZeroDivisionError"
proof -
  have h1: "distinct (keys three_pages)" by (simp add: three_pages_keys)
  have h2: "(0::int) \<le> 0" by simp
  have h3: "three_pages \<noteq> []" by (simp add: three_pages_def)
  show ?thesis
    using h1 h3 sample_pagerank_nonpositive [OF h1 h2, of "85 / 100" draws_half] by simp
qed

text \<open>
  Claim C5, as stated, fails: a negative sample count is not rejected, the call returns
  a result.
\<close>

theorem sample_pagerank_negative_count_accepted:
  "sample_pagerank three_pages (85 / 100) (- 3) draws_half
     = Inr [(''a'', 0), (''b'', 0), (''c'', 0)]"
  by (simp add: sample_pagerank_def sample_counts_def normalise_def fill_def three_pages_keys)



lemma single_page_pass:
  "iterate_pass [(p, {||})] damping_factor [(p, 1)] = Inr (False, [(p, 1)])"
  by (simp add: iterate_pass_def keys_def dict_get_def fcard_fempty)

text \<open>
  Claim C7. On the graph of one page without links, with a damping factor in \<open>(0,1)\<close>
  and a positive sample count, \<open>sample_pagerank\<close> (for any random draws) and
  \<open>iterate_pagerank\<close> both return the distribution that maps the page to 1.
\<close>

theorem single_page:
  assumes "0 < damping_factor" and "damping_factor < 1" and "0 < n"
  shows "sample_pagerank [(p, {||})] damping_factor n rnd = Inr [(p, 1)]
         \<and> iterate_pagerank [(p, {||})] damping_factor = Some (Inr [(p, 1)])"
proof -
  let ?corpus = "[(p, {||})] :: corpus"
  have d: "distinct (keys ?corpus)" and c: "closed ?corpus" and ne: "?corpus \<noteq> []"
    by (simp_all add: keys_def closed_def)
  obtain counts where
    sc: "sample_counts ?corpus damping_factor n rnd = Inr counts"
        "keys counts = keys ?corpus" "sum_list (dict_values counts) = int (nat n)"
    using sample_counts_ok [OF d c ne] by blast
  from sc(2) obtain v where "counts = [(p, v)]"
    by (cases counts) (auto simp: keys_def)
  with sc(3) assms(3) have counts: "counts = [(p, n)]"
    by (simp add: dict_values_def)
  have sample: "sample_pagerank ?corpus damping_factor n rnd = Inr [(p, 1)]"
    using assms(3) by (simp add: sample_pagerank_def sc(1) counts normalise_def)
  have "iterate_pagerank ?corpus damping_factor = Some (Inr [(p, 1)])"
    unfolding iterate_pagerank_def
    by (subst iterate_loop.simps) (simp add: fill_def keys_def single_page_pass)
  with sample show ?thesis by simp
qed

theorem single_page_witness:
  "(0::real) < 85 / 100 \<and> (85 / 100 :: real) < 1 \<and> (0::int) < 10000
   \<and> sample_pagerank [(''a'', {||})] (85 / 100) 10000 draws_half = Inr [(''a'', 1)]
   \<and> iterate_pagerank [(''a'', {||})] (85 / 100) = Some (Inr [(''a'', 1)])"
proof -
  have h1: "(0::real) < 85 / 100" and h2: "(85 / 100 :: real) < 1" and h3: "(0::int) < 10000"
    by simp_all
  show ?thesis
    using h1 h2 h3 single_page [OF h1 h2 h3, of "''a''" draws_half] by simp
qed


section \<open>One pass of the iteration\<close>

lemma dict_get_lookup:
  "k \<in> set (keys d) \<Longrightarrow> dict_get d k = Inr (lookup d k)"
  by (cases "map_of d k") (auto simp: dict_get_def lookup_def keys_def map_of_eq_None_iff)

lemma lookup_dict_set: "lookup (dict_set d k v) = (lookup d)(k := v)"
proof (induction d)
  case Nil
  show ?case by (rule ext) (simp add: lookup_def)
next
  case (Cons kv d)
  obtain k' v' where kv: "kv = (k', v')" by (cases kv)
  show ?case
  proof (rule ext)
    fix q
    have "lookup (dict_set d k v) q = ((lookup d)(k := v)) q" using Cons by simp
    then show "lookup (dict_set (kv # d) k v) q = ((lookup (kv # d))(k := v)) q"
      unfolding kv by (auto simp: lookup_def)
  qed
qed

lemma sigma_loop_sum:
  assumes "set (keys rest) \<subseteq> set (keys result)"
  shows "sigma_loop corpus result page rest sigma
           = Inr (sigma + sum_list (map (contribution corpus (lookup result) page) rest))"
  using assms
proof (induction rest arbitrary: sigma)
  case Nil
  then show ?case by simp
next
  case (Cons item rest)
  obtain linker links where item: "item = (linker, links)" by (cases item)
  have k: "linker \<in> set (keys result)" and sub: "set (keys rest) \<subseteq> set (keys result)"
    using Cons.prems by (auto simp: item keys_def)
  show ?case
    unfolding item
    by (simp add: dict_get_lookup [OF k] Cons.IH [OF sub] contribution_def)
qed

lemma pass_loop_relax:
  assumes "set (keys corpus) \<subseteq> set (keys result)" and "set pages \<subseteq> set (keys result)"
  shows "\<exists>go' result'.
           pass_loop corpus damping_factor pages (go, result) = Inr (go', result')
           \<and> keys result' = keys result
           \<and> lookup result' = relax corpus damping_factor pages (lookup result)"
  using assms
proof (induction pages arbitrary: go result)
  case Nil
  then show ?case by simp
next
  case (Cons page pages)
  let ?new = "new_rank corpus damping_factor (lookup result) page"
  let ?go = "go \<or> \<bar>?new - lookup result page\<bar> > 1 / 1000"
  let ?result = "dict_set result page ?new"
  have page: "page \<in> set (keys result)" using Cons.prems(2) by simp
  have k: "keys ?result = keys result" using page by (simp add: keys_dict_set)
  have step: "pass_loop corpus damping_factor (page # pages) (go, result)
                = pass_loop corpus damping_factor pages (?go, ?result)"
    by (simp add: sigma_loop_sum [OF Cons.prems(1)] dict_get_lookup [OF page] new_rank_def Let_def)
  have "set (keys corpus) \<subseteq> set (keys ?result)" "set pages \<subseteq> set (keys ?result)"
    using Cons.prems k by auto
  from Cons.IH [OF this, of ?go] obtain go' result' where
    rest: "pass_loop corpus damping_factor pages (?go, ?result) = Inr (go', result')"
          "keys result' = keys ?result"
          "lookup result' = relax corpus damping_factor pages (lookup ?result)"
    by blast
  show ?case
    using step rest k by (simp add: lookup_dict_set)
qed

lemma relax_append:
  "relax corpus d (xs @ ys) rank = relax corpus d ys (relax corpus d xs rank)"
  by (induction xs arbitrary: rank) auto

lemma relax_other:
  "q \<notin> set ps \<Longrightarrow> relax corpus d ps rank q = rank q"
  by (induction ps arbitrary: rank) auto

lemma relax_at:
  assumes "distinct (pre @ p # post)"
  shows "relax corpus d (pre @ p # post) rank p = new_rank corpus d (relax corpus d pre rank) p"
  using assms by (simp add: relax_append relax_other)

lemma relax_prefix:
  assumes "distinct (pre @ post)"
  shows "relax corpus d pre rank
           = (\<lambda>q. if q \<in> set pre then relax corpus d (pre @ post) rank q else rank q)"
proof (rule ext)
  fix q
  show "relax corpus d pre rank q
          = (if q \<in> set pre then relax corpus d (pre @ post) rank q else rank q)"
  proof (cases "q \<in> set pre")
    case True
    then have "q \<notin> set post" using assms by auto
    then show ?thesis using True by (simp add: relax_append relax_other)
  next
    case False
    then show ?thesis by (simp add: relax_other)
  qed
qed

text \<open>
  Claim C1, as amended. A full pass computes, for the page \<open>p\<close> of the universe,
  \<open>new_rank(p)\<close> by the formula of the claim, where the rank read for a page that
  precedes \<open>p\<close> in the order of the dictionary is the rank already stored in this same
  pass, and the rank read for \<open>p\<close> itself and for every later page is the rank of the
  previous pass: the pass updates the ranks in place.
\<close>

theorem pass_in_place:
  assumes "distinct (keys corpus)" and "keys result = keys corpus"
    and "keys corpus = pre @ p # post"
  shows "\<exists>go result'.
           iterate_pass corpus damping_factor result = Inr (go, result')
           \<and> keys result' = keys corpus
           \<and> lookup result' p
               = new_rank corpus damping_factor
                   (\<lambda>linker. if linker \<in> set pre then lookup result' linker
                              else lookup result linker) p"
proof -
  obtain go result' where
    pass: "pass_loop corpus damping_factor (keys result) (False, result) = Inr (go, result')"
          "keys result' = keys result"
          "lookup result' = relax corpus damping_factor (keys result) (lookup result)"
    using pass_loop_relax [of corpus result "keys result" damping_factor False] assms(2)
    by auto
  have dist: "distinct (pre @ p # post)" using assms(1,3) by simp
  have final: "lookup result' = relax corpus damping_factor (pre @ p # post) (lookup result)"
    using pass(3) assms(2,3) by simp
  have "lookup result' p = new_rank corpus damping_factor
          (relax corpus damping_factor pre (lookup result)) p"
    by (simp only: final relax_at [OF dist])
  also have "relax corpus damping_factor pre (lookup result)
      = (\<lambda>linker. if linker \<in> set pre then lookup result' linker else lookup result linker)"
    by (simp only: final relax_prefix [OF dist, of corpus damping_factor "lookup result"])
  finally show ?thesis
    using pass(1,2) assms(2) by (auto simp: iterate_pass_def)
qed

theorem pass_in_place_witness:
  "distinct (keys three_pages) \<and> keys (fill three_pages (1 / 3 :: real) []) = keys three_pages
   \<and> keys three_pages = [''a'', ''b''] @ ''c'' # []
   \<and> (\<exists>go result'.
           iterate_pass three_pages (85 / 100) (fill three_pages (1 / 3) []) = Inr (go, result')
           \<and> keys result' = keys three_pages
           \<and> lookup result' ''c''
               = new_rank three_pages (85 / 100)
                   (\<lambda>linker. if linker \<in> set [''a'', ''b''] then lookup result' linker
                              else lookup (fill three_pages (1 / 3) []) linker) ''c'')"
proof -
  have h1: "distinct (keys three_pages)" by (simp add: three_pages_keys)
  have h2: "keys (fill three_pages (1 / 3 :: real) []) = keys three_pages"
    by (rule keys_fill_empty [OF h1])
  have h3: "keys three_pages = [''a'', ''b''] @ ''c'' # []" by (simp add: three_pages_keys)
  show ?thesis
    using h1 h2 h3 pass_in_place [OF h1 h2 h3, of "85 / 100"] by blast
qed

lemma first_pass_three_pages:
  "iterate_pass three_pages (85 / 100) (fill three_pages (1 / 3) [])
     = Inr (True, [(''a'', 13 / 90), (''b'', 13 / 90), (''c'', 39 / 100)])"
  by (simp add: iterate_pass_def fill_def three_pages_keys keys_def)
     (simp add: three_pages_def dict_get_def fcard_finsert_if fcard_fempty Let_def)

text \<open>
  Claim C1, as stated, fails: in the first pass on the three-page graph the new rank of
  \<open>c\<close> is computed from the ranks of \<open>a\<close> and \<open>b\<close> stored earlier in the same pass
  (\<open>39/100\<close>), not from the ranks of the previous pass (\<open>32/45\<close>).
\<close>

theorem pass_not_snapshot:
  "iterate_pass three_pages (85 / 100) (fill three_pages (1 / 3) [])
     = Inr (True, [(''a'', 13 / 90), (''b'', 13 / 90), (''c'', 39 / 100)])
   \<and> new_rank three_pages (85 / 100) (lookup (fill three_pages (1 / 3) [])) ''c'' = 32 / 45
   \<and> lookup [(''a'', 13 / 90), (''b'', 13 / 90), (''c'', 39 / 100)] ''c''
       \<noteq> new_rank three_pages (85 / 100) (lookup (fill three_pages (1 / 3) [])) ''c''"
proof -
  have jacobi: "new_rank three_pages (85 / 100) (lookup (fill three_pages (1 / 3) [])) ''c'' = 32 / 45"
    by (simp add: fill_def three_pages_keys)
       (simp add: new_rank_def contribution_def three_pages_def lookup_def fcard_finsert_if fcard_fempty)
  have in_place: "lookup [(''a'', 13 / 90), (''b'', 13 / 90), (''c'', 39 / 100)] ''c'' = 39 / 100"
    by (simp add: lookup_def)
  have differ: "(39 / 100 :: real) \<noteq> 32 / 45" by simp
  show ?thesis
    unfolding jacobi in_place using first_pass_three_pages differ by simp
qed

section \<open>Convergence of the iteration\<close>

lemma gs_contraction:
  fixes w :: "nat \<Rightarrow> nat \<Rightarrow> real" and a a' :: "nat \<Rightarrow> real" and d :: real
  assumes d: "0 \<le> d" "d \<le> 1"
    and w: "\<And>i j. 0 \<le> w i j"
    and col: "\<And>j. j < n \<Longrightarrow> (\<Sum>i<n. w i j) \<le> 1"
    and a: "\<And>j. 0 \<le> a j"
    and step: "\<And>i. i < n \<Longrightarrow> a' i \<le> d * (\<Sum>j<n. w i j * (if j < i then a' j else a j))"
  shows "(\<Sum>j<n. (1 - d * (\<Sum>i<n. if j < i then w i j else 0)) * a' j)
           \<le> d * (\<Sum>j<n. (1 - d * (\<Sum>i<n. if j < i then w i j else 0)) * a j)"
proof -
  define L where "L j = (\<Sum>i<n. if j < i then w i j else 0)" for j
  define U where "U j = (\<Sum>i<n. if j < i then 0 else w i j)" for j
  have L0: "0 \<le> L j" for j unfolding L_def by (intro sum_nonneg) (simp add: w)
  have LU: "L j + U j = (\<Sum>i<n. w i j)" for j
    unfolding L_def U_def sum.distrib [symmetric] by (intro sum.cong) auto
  have inner: "(\<Sum>i<n. w i j * (if j < i then a' j else a j)) = L j * a' j + U j * a j" for j
  proof -
    have "(\<Sum>i<n. w i j * (if j < i then a' j else a j))
            = (\<Sum>i<n. (if j < i then w i j else 0) * a' j + (if j < i then 0 else w i j) * a j)"
      by (intro sum.cong) auto
    also have "\<dots> = L j * a' j + U j * a j"
      unfolding L_def U_def by (simp add: sum.distrib sum_distrib_right)
    finally show ?thesis .
  qed
  have "(\<Sum>i<n. a' i) \<le> (\<Sum>i<n. d * (\<Sum>j<n. w i j * (if j < i then a' j else a j)))"
    by (intro sum_mono) (simp add: step)
  also have "\<dots> = d * (\<Sum>i<n. \<Sum>j<n. w i j * (if j < i then a' j else a j))"
    by (simp add: sum_distrib_left)
  also have "(\<Sum>i<n. \<Sum>j<n. w i j * (if j < i then a' j else a j))
               = (\<Sum>j<n. \<Sum>i<n. w i j * (if j < i then a' j else a j))"
    by (rule sum.swap)
  also have "\<dots> = (\<Sum>j<n. L j * a' j + U j * a j)"
    by (simp add: inner)
  finally have total: "(\<Sum>i<n. a' i) \<le> d * ((\<Sum>j<n. L j * a' j) + (\<Sum>j<n. U j * a j))"
    by (simp add: sum.distrib)
  have "(\<Sum>j<n. (1 - d * L j) * a' j) = (\<Sum>j<n. a' j) - d * (\<Sum>j<n. L j * a' j)"
    by (simp add: algebra_simps sum_subtractf sum_distrib_left)
  also have "\<dots> \<le> d * (\<Sum>j<n. U j * a j)"
    using total by (simp add: algebra_simps)
  also have "\<dots> \<le> d * (\<Sum>j<n. (1 - d * L j) * a j)"
  proof (intro mult_left_mono sum_mono d(1))
    fix j assume "j \<in> {..<n}"
    then have "U j \<le> 1 - L j" using col [of j] LU [of j] by simp
    moreover have "d * L j \<le> L j" using mult_right_mono [OF d(2) L0 [of j]] by simp
    ultimately have "U j \<le> 1 - d * L j" by simp
    then show "U j * a j \<le> (1 - d * L j) * a j" by (intro mult_right_mono a)
  qed
  finally show ?thesis unfolding L_def .
qed


lemma contribution_weight:
  "contribution corpus rank p item = weight corpus p item * rank (fst item)"
  by (cases item) (simp add: weight_def contribution_def)

lemma weight_nonneg: "0 \<le> weight corpus p item"
  by (cases item) (simp add: weight_def contribution_def)

lemma sum_list_nth_lessThan: "sum_list (map f xs) = (\<Sum>j<length xs. f (xs ! j))"
proof -
  have "sum_list (map f xs) = (\<Sum>j = 0..<length (map f xs). map f xs ! j)"
    by (rule sum_list_sum_nth)
  also have "\<dots> = (\<Sum>j<length xs. f (xs ! j))"
    by (simp add: atLeast0LessThan)
  finally show ?thesis .
qed

lemma new_rank_index:
  "new_rank corpus d rank p
     = (1 - d) / real (length corpus)
         + d * (\<Sum>j<length corpus. weight corpus p (corpus ! j) * rank (keys corpus ! j))"
proof -
  have "sum_list (map (contribution corpus rank p) corpus)
          = (\<Sum>j<length corpus. contribution corpus rank p (corpus ! j))"
    by (rule sum_list_nth_lessThan)
  also have "\<dots> = (\<Sum>j<length corpus. weight corpus p (corpus ! j) * rank (keys corpus ! j))"
    by (intro sum.cong) (simp_all add: contribution_weight keys_def)
  finally show ?thesis by (simp add: new_rank_def)
qed

lemma nth_in_take:
  assumes "distinct xs" and "j < length xs" and "i \<le> length xs"
  shows "xs ! j \<in> set (take i xs) \<longleftrightarrow> j < i"
proof
  assume "xs ! j \<in> set (take i xs)"
  then obtain k where k: "k < length (take i xs)" "take i xs ! k = xs ! j"
    by (auto simp: in_set_conv_nth)
  then have "k < i" "k < length xs" "xs ! k = xs ! j" using assms(3) by auto
  then have "k = j" using assms(1,2) by (simp add: nth_eq_iff_index_eq)
  with \<open>k < i\<close> show "j < i" by simp
next
  assume "j < i"
  then have "take i xs ! j = xs ! j" "j < length (take i xs)" using assms by auto
  then show "xs ! j \<in> set (take i xs)" by (metis nth_mem)
qed

lemma relax_split:
  assumes "ps = pre @ p # post" and "distinct ps"
  shows "relax corpus d ps rank p
           = new_rank corpus d
               (\<lambda>q. if q \<in> set pre then relax corpus d ps rank q else rank q) p"
proof -
  have dist: "distinct (pre @ p # post)" using assms by simp
  show ?thesis
    unfolding assms(1) by (simp only: relax_at [OF dist] relax_prefix [OF dist, symmetric])
qed

lemma relax_nth:
  assumes "distinct ps" and "i < length ps"
  shows "relax corpus d ps rank (ps ! i)
           = new_rank corpus d
               (\<lambda>q. if q \<in> set (take i ps) then relax corpus d ps rank q else rank q) (ps ! i)"
  using id_take_nth_drop [OF assms(2)] assms(1) by (rule relax_split)

lemma pass_ranks_index:
  assumes "distinct (keys corpus)" and "i < length corpus"
  shows "pass_ranks corpus d rank (keys corpus ! i)
           = (1 - d) / real (length corpus)
               + d * (\<Sum>j<length corpus.
                        weight corpus (keys corpus ! i) (corpus ! j)
                          * (if j < i then pass_ranks corpus d rank (keys corpus ! j)
                             else rank (keys corpus ! j)))"
proof -
  have len: "length (keys corpus) = length corpus" by (simp add: keys_def)
  have i: "i < length (keys corpus)" using assms(2) len by simp
  have "pass_ranks corpus d rank (keys corpus ! i)
          = new_rank corpus d
              (\<lambda>q. if q \<in> set (take i (keys corpus)) then pass_ranks corpus d rank q else rank q)
              (keys corpus ! i)"
    unfolding pass_ranks_def by (rule relax_nth [OF assms(1) i])
  also have "\<dots> = (1 - d) / real (length corpus)
               + d * (\<Sum>j<length corpus.
                        weight corpus (keys corpus ! i) (corpus ! j)
                          * (if keys corpus ! j \<in> set (take i (keys corpus))
                             then pass_ranks corpus d rank (keys corpus ! j)
                             else rank (keys corpus ! j)))"
    by (rule new_rank_index)
  also have "(\<Sum>j<length corpus.
                        weight corpus (keys corpus ! i) (corpus ! j)
                          * (if keys corpus ! j \<in> set (take i (keys corpus))
                             then pass_ranks corpus d rank (keys corpus ! j)
                             else rank (keys corpus ! j)))
      = (\<Sum>j<length corpus.
                        weight corpus (keys corpus ! i) (corpus ! j)
                          * (if j < i then pass_ranks corpus d rank (keys corpus ! j)
                             else rank (keys corpus ! j)))"
    using nth_in_take [OF assms(1)] i len by (intro sum.cong) auto
  finally show ?thesis .
qed

lemma length_filter_links_le:
  assumes "distinct ks"
  shows "length (filter (\<lambda>p. p |\<in>| links) ks) \<le> fcard links"
proof -
  have "distinct (filter (\<lambda>p. p |\<in>| links) ks)" using assms by simp
  then have "length (filter (\<lambda>p. p |\<in>| links) ks) = card (set (filter (\<lambda>p. p |\<in>| links) ks))"
    by (rule distinct_card [symmetric])
  also have "\<dots> \<le> card (fset links)"
    by (intro card_mono) auto
  finally show ?thesis by (simp add: fcard.rep_eq)
qed

lemma weight_column:
  assumes "distinct (keys corpus)" and "j < length corpus"
  shows "(\<Sum>i<length corpus. weight corpus (keys corpus ! i) (corpus ! j)) \<le> 1"
proof -
  obtain linker links where item: "corpus ! j = (linker, links)" by (cases "corpus ! j")
  have len: "length (keys corpus) = length corpus" by (simp add: keys_def)
  have n: "0 < length corpus" using assms(2) by (cases corpus) simp_all
  have as_list: "(\<Sum>i<length corpus. weight corpus (keys corpus ! i) (corpus ! j))
                   = sum_list (map (\<lambda>p. weight corpus p (linker, links)) (keys corpus))"
    using sum_list_nth_lessThan [of "\<lambda>p. weight corpus p (linker, links)" "keys corpus"]
    by (simp add: item len)
  show ?thesis
  proof (cases "links = {||}")
    case True
    then have "sum_list (map (\<lambda>p. weight corpus p (linker, links)) (keys corpus)) = 1"
      using n by (simp add: weight_def contribution_def sum_list_triv len)
    with as_list show ?thesis by simp
  next
    case False
    then have k: "0 < real (fcard links)"
      by (metis fcard_0_eq gr0I of_nat_0_less_iff)
    have "sum_list (map (\<lambda>p. weight corpus p (linker, links)) (keys corpus))
            = sum_list (map (\<lambda>p. if p |\<in>| links then 1 / real (fcard links) else 0) (keys corpus))"
      using False by (simp add: weight_def contribution_def)
    also have "\<dots> = real (length (filter (\<lambda>p. p |\<in>| links) (keys corpus))) * (1 / real (fcard links))"
      by (rule sum_list_indicator)
    also have "\<dots> \<le> real (fcard links) * (1 / real (fcard links))"
      using length_filter_links_le [OF assms(1), of links]
      by (intro mult_right_mono) simp_all
    also have "\<dots> = 1" using False by simp
    finally show ?thesis using as_list by simp
  qed
qed

lemma later_weight_bounds:
  assumes "distinct (keys corpus)" and "j < length corpus"
  shows "0 \<le> later_weight corpus j" and "later_weight corpus j \<le> 1"
proof -
  show "0 \<le> later_weight corpus j"
    unfolding later_weight_def by (intro sum_nonneg) (simp add: weight_nonneg)
  have "later_weight corpus j \<le> (\<Sum>i<length corpus. weight corpus (keys corpus ! i) (corpus ! j))"
    unfolding later_weight_def by (intro sum_mono) (simp add: weight_nonneg)
  with weight_column [OF assms] show "later_weight corpus j \<le> 1" by simp
qed

lemma pass_contraction:
  assumes "distinct (keys corpus)" and "0 \<le> d" and "d \<le> 1"
  shows "potential corpus d (\<lambda>p. pass_ranks corpus d (pass_ranks corpus d rank) p
                                   - pass_ranks corpus d rank p)
           \<le> d * potential corpus d (\<lambda>p. pass_ranks corpus d rank p - rank p)"
proof -
  let ?n = "length corpus"
  let ?x = "\<lambda>j. rank (keys corpus ! j)"
  let ?y = "\<lambda>j. pass_ranks corpus d rank (keys corpus ! j)"
  let ?z = "\<lambda>j. pass_ranks corpus d (pass_ranks corpus d rank) (keys corpus ! j)"
  let ?w = "\<lambda>i j. weight corpus (keys corpus ! i) (corpus ! j)"
  have step: "\<bar>?z i - ?y i\<bar>
                \<le> d * (\<Sum>j<?n. ?w i j * (if j < i then \<bar>?z j - ?y j\<bar> else \<bar>?y j - ?x j\<bar>))"
    if i: "i < ?n" for i
  proof -
    have "?z i - ?y i
            = d * (\<Sum>j<?n. ?w i j * (if j < i then ?z j else ?y j))
              - d * (\<Sum>j<?n. ?w i j * (if j < i then ?y j else ?x j))"
      using pass_ranks_index [OF assms(1) i, of d "pass_ranks corpus d rank"]
            pass_ranks_index [OF assms(1) i, of d rank]
      by simp
    also have "\<dots> = d * (\<Sum>j<?n. ?w i j * (if j < i then ?z j - ?y j else ?y j - ?x j))"
      unfolding right_diff_distrib [symmetric] sum_subtractf [symmetric]
      by (intro arg_cong [where f = "\<lambda>s. d * s"] sum.cong) (auto simp: algebra_simps)
    finally have "\<bar>?z i - ?y i\<bar>
        = d * \<bar>\<Sum>j<?n. ?w i j * (if j < i then ?z j - ?y j else ?y j - ?x j)\<bar>"
      using assms(2) by (simp add: abs_mult)
    also have "\<dots> \<le> d * (\<Sum>j<?n. \<bar>?w i j * (if j < i then ?z j - ?y j else ?y j - ?x j)\<bar>)"
      by (intro mult_left_mono sum_abs assms(2))
    also have "(\<Sum>j<?n. \<bar>?w i j * (if j < i then ?z j - ?y j else ?y j - ?x j)\<bar>)
        = (\<Sum>j<?n. ?w i j * (if j < i then \<bar>?z j - ?y j\<bar> else \<bar>?y j - ?x j\<bar>))"
      by (intro sum.cong) (auto simp: abs_mult weight_nonneg)
    finally show ?thesis .
  qed
  have "(\<Sum>j<?n. (1 - d * (\<Sum>i<?n. if j < i then ?w i j else 0)) * \<bar>?z j - ?y j\<bar>)
          \<le> d * (\<Sum>j<?n. (1 - d * (\<Sum>i<?n. if j < i then ?w i j else 0)) * \<bar>?y j - ?x j\<bar>)"
    by (rule gs_contraction [where w = ?w and a = "\<lambda>j. \<bar>?y j - ?x j\<bar>"
                               and a' = "\<lambda>j. \<bar>?z j - ?y j\<bar>", OF assms(2,3)])
       (simp_all add: weight_nonneg weight_column [OF assms(1)] step)
  then show ?thesis by (simp add: potential_def later_weight_def)
qed

lemma potential_bound:
  assumes "distinct (keys corpus)" and "0 \<le> d" and "d \<le> 1" and "j < length corpus"
  shows "(1 - d) * \<bar>e (keys corpus ! j)\<bar> \<le> potential corpus d e"
proof -
  let ?summand = "\<lambda>j. (1 - d * later_weight corpus j) * \<bar>e (keys corpus ! j)\<bar>"
  have coeff: "1 - d \<le> 1 - d * later_weight corpus k" if "k < length corpus" for k
  proof -
    have "d * later_weight corpus k \<le> d * 1"
      using later_weight_bounds [OF assms(1) that] assms(2) by (intro mult_left_mono) simp_all
    then show ?thesis by simp
  qed
  have nonneg: "0 \<le> ?summand k" if "k \<in> {..<length corpus}" for k
    using coeff [of k] that assms(3) by simp
  have "(1 - d) * \<bar>e (keys corpus ! j)\<bar> \<le> ?summand j"
    using coeff [OF assms(4)] by (intro mult_right_mono) simp_all
  also have "\<dots> \<le> (\<Sum>k<length corpus. ?summand k)"
    using assms(4) nonneg by (intro member_le_sum) simp_all
  finally show ?thesis by (simp add: potential_def)
qed

lemma potential_nonneg:
  assumes "distinct (keys corpus)" and "0 \<le> d" and "d \<le> 1"
  shows "0 \<le> potential corpus d e"
  unfolding potential_def
proof (intro sum_nonneg mult_nonneg_nonneg)
  fix j assume "j \<in> {..<length corpus}"
  then have "d * later_weight corpus j \<le> 1 * 1"
    using later_weight_bounds [OF assms(1), of j] assms(2,3) by (intro mult_mono) simp_all
  then show "0 \<le> 1 - d * later_weight corpus j" by simp
qed simp

lemma potential_iterates:
  assumes "distinct (keys corpus)" and "0 \<le> d" and "d \<le> 1"
  shows "potential corpus d (\<lambda>p. (pass_ranks corpus d ^^ Suc m) rank p
                                   - (pass_ranks corpus d ^^ m) rank p)
           \<le> d ^ m * potential corpus d (\<lambda>p. pass_ranks corpus d rank p - rank p)"
proof (induction m)
  case 0
  show ?case by simp
next
  case (Suc m)
  let ?s = "(pass_ranks corpus d ^^ m) rank"
  have "potential corpus d (\<lambda>p. (pass_ranks corpus d ^^ Suc (Suc m)) rank p
                                   - (pass_ranks corpus d ^^ Suc m) rank p)
          = potential corpus d (\<lambda>p. pass_ranks corpus d (pass_ranks corpus d ?s) p
                                       - pass_ranks corpus d ?s p)"
    by simp
  also have "\<dots> \<le> d * potential corpus d (\<lambda>p. pass_ranks corpus d ?s p - ?s p)"
    by (rule pass_contraction [OF assms])
  also have "\<dots> \<le> d * (d ^ m * potential corpus d (\<lambda>p. pass_ranks corpus d rank p - rank p))"
    using Suc.IH assms(2) by (intro mult_left_mono) simp_all
  finally show ?case by (simp add: mult.assoc)
qed

lemma cancel_scaled: "c \<noteq> 0 \<Longrightarrow> x / (1000 * c) * c = x / (1000::real)"
  by simp

lemma eventually_settled:
  assumes "distinct (keys corpus)" and "0 < d" and "d < 1"
  shows "\<exists>m. \<forall>p \<in> set (keys corpus).
           \<bar>(pass_ranks corpus d ^^ Suc m) rank p - (pass_ranks corpus d ^^ m) rank p\<bar> \<le> 1 / 1000"
proof -
  let ?P0 = "potential corpus d (\<lambda>p. pass_ranks corpus d rank p - rank p)"
  have d: "0 \<le> d" "d \<le> 1" using assms(2,3) by simp_all
  have P0: "0 \<le> ?P0" by (rule potential_nonneg [OF assms(1) d])
  have "0 < (1 - d) / (1000 * (?P0 + 1))" using P0 assms(3) by simp
  then obtain m where m: "d ^ m < (1 - d) / (1000 * (?P0 + 1))"
    using real_arch_pow_inv [OF _ assms(3)] by blast
  have small: "d ^ m * ?P0 \<le> (1 - d) / 1000"
  proof -
    have "d ^ m * ?P0 \<le> d ^ m * (?P0 + 1)"
      using assms(2) by (intro mult_left_mono) simp_all
    also have "\<dots> \<le> (1 - d) / (1000 * (?P0 + 1)) * (?P0 + 1)"
      using m P0 by (intro mult_right_mono) simp_all
    also have "\<dots> = (1 - d) / 1000"
    proof -
      have "?P0 + 1 \<noteq> 0" using P0 by linarith
      then show ?thesis by (rule cancel_scaled)
    qed
    finally show ?thesis .
  qed
  have "\<bar>(pass_ranks corpus d ^^ Suc m) rank p - (pass_ranks corpus d ^^ m) rank p\<bar> \<le> 1 / 1000"
    if "p \<in> set (keys corpus)" for p
  proof -
    from that obtain j where j: "j < length (keys corpus)" "keys corpus ! j = p"
      by (auto simp: in_set_conv_nth)
    then have jn: "j < length corpus" by (simp add: keys_def)
    let ?e = "\<lambda>p. (pass_ranks corpus d ^^ Suc m) rank p - (pass_ranks corpus d ^^ m) rank p"
    have "(1 - d) * \<bar>?e p\<bar> \<le> potential corpus d ?e"
      using potential_bound [OF assms(1) d jn, of ?e] j(2) by simp
    also have "\<dots> \<le> d ^ m * ?P0" by (rule potential_iterates [OF assms(1) d])
    also have "\<dots> \<le> (1 - d) / 1000" by (rule small)
    finally have "(1 - d) * \<bar>?e p\<bar> \<le> (1 - d) * (1 / 1000)" by simp
    then show ?thesis using assms(3) by (simp only: mult_le_cancel_left_pos) 
  qed
  then show ?thesis by blast
qed

lemma pass_loop_go:
  assumes "set (keys corpus) \<subseteq> set (keys result)" and "set pages \<subseteq> set (keys result)"
    and "distinct pages"
  shows "\<exists>result'.
           pass_loop corpus d pages (go, result)
             = Inr (go \<or> (\<exists>p \<in> set pages.
                             \<bar>relax corpus d pages (lookup result) p - lookup result p\<bar> > 1 / 1000),
                    result')
           \<and> keys result' = keys result
           \<and> lookup result' = relax corpus d pages (lookup result)"
  using assms
proof (induction pages arbitrary: go result)
  case Nil
  then show ?case by simp
next
  case (Cons page pages)
  let ?new = "new_rank corpus d (lookup result) page"
  let ?go = "go \<or> \<bar>?new - lookup result page\<bar> > 1 / 1000"
  let ?result = "dict_set result page ?new"
  have page: "page \<in> set (keys result)" using Cons.prems(2) by simp
  have fresh: "page \<notin> set pages" and dist: "distinct pages" using Cons.prems(3) by simp_all
  have k: "keys ?result = keys result" using page by (simp add: keys_dict_set)
  have lk: "lookup ?result = (lookup result)(page := ?new)" by (rule lookup_dict_set)
  have step: "pass_loop corpus d (page # pages) (go, result)
                = pass_loop corpus d pages (?go, ?result)"
    by (simp add: sigma_loop_sum [OF Cons.prems(1)] dict_get_lookup [OF page] new_rank_def Let_def)
  have "set (keys corpus) \<subseteq> set (keys ?result)" "set pages \<subseteq> set (keys ?result)"
    using Cons.prems k by auto
  from Cons.IH [OF this dist, of ?go] obtain result' where
    rest: "pass_loop corpus d pages (?go, ?result)
             = Inr (?go \<or> (\<exists>p \<in> set pages.
                             \<bar>relax corpus d pages (lookup ?result) p - lookup ?result p\<bar> > 1 / 1000),
                    result')"
          "keys result' = keys ?result"
          "lookup result' = relax corpus d pages (lookup ?result)"
    by blast
  have here: "relax corpus d (page # pages) (lookup result) page = ?new"
    using fresh by (simp add: relax_other)
  have others: "lookup ?result p = lookup result p" if "p \<in> set pages" for p
    using that fresh by (auto simp: lk)
  have flag: "(?go \<or> (\<exists>p \<in> set pages.
                 \<bar>relax corpus d pages (lookup ?result) p - lookup ?result p\<bar> > 1 / 1000))
      = (go \<or> (\<exists>p \<in> set (page # pages).
                 \<bar>relax corpus d (page # pages) (lookup result) p - lookup result p\<bar> > 1 / 1000))"
    using here others by (auto simp: lk)
  show ?case
    using step rest k flag by (simp add: lk)
qed

lemma iterate_pass_ranks:
  assumes "distinct (keys corpus)" and "keys result = keys corpus"
  shows "\<exists>result'.
           iterate_pass corpus d result
             = Inr (\<exists>p \<in> set (keys corpus).
                      \<bar>pass_ranks corpus d (lookup result) p - lookup result p\<bar> > 1 / 1000,
                    result')
           \<and> keys result' = keys corpus
           \<and> lookup result' = pass_ranks corpus d (lookup result)"
  using pass_loop_go [of corpus result "keys result" d False] assms
  by (simp add: iterate_pass_def pass_ranks_def)

lemma iterate_loop_settles:
  assumes "distinct (keys corpus)" and "keys result = keys corpus"
    and "\<forall>p \<in> set (keys corpus).
           \<bar>(pass_ranks corpus d ^^ Suc m) (lookup result) p
              - (pass_ranks corpus d ^^ m) (lookup result) p\<bar> \<le> 1 / 1000"
  shows "\<exists>prev result'.
           iterate_loop corpus d result = Some (Inr result')
           \<and> keys prev = keys corpus \<and> keys result' = keys corpus
           \<and> iterate_pass corpus d prev = Inr (False, result')
           \<and> (\<forall>p \<in> set (keys corpus). \<bar>lookup result' p - lookup prev p\<bar> \<le> 1 / 1000)"
  using assms(2,3)
proof (induction m arbitrary: result)
  case 0
  obtain result1 where
    pass: "iterate_pass corpus d result
             = Inr (\<exists>p \<in> set (keys corpus).
                      \<bar>pass_ranks corpus d (lookup result) p - lookup result p\<bar> > 1 / 1000,
                    result1)"
          "keys result1 = keys corpus"
          "lookup result1 = pass_ranks corpus d (lookup result)"
    using iterate_pass_ranks [OF assms(1) "0.prems"(1)] by blast
  have quiet: "\<not> (\<exists>p \<in> set (keys corpus).
                   \<bar>pass_ranks corpus d (lookup result) p - lookup result p\<bar> > 1 / 1000)"
    using "0.prems"(2) by (auto simp: not_less)
  have p1: "iterate_pass corpus d result = Inr (False, result1)"
    using pass(1) quiet by simp
  have "iterate_loop corpus d result = Some (Inr result1)"
    by (subst iterate_loop.simps) (simp add: p1)
  moreover have "\<forall>p \<in> set (keys corpus). \<bar>lookup result1 p - lookup result p\<bar> \<le> 1 / 1000"
    using quiet pass(3) by (auto simp: not_less)
  ultimately show ?case using p1 pass(2) "0.prems"(1) by blast
next
  case (Suc m)
  obtain result1 where
    pass: "iterate_pass corpus d result
             = Inr (\<exists>p \<in> set (keys corpus).
                      \<bar>pass_ranks corpus d (lookup result) p - lookup result p\<bar> > 1 / 1000,
                    result1)"
          "keys result1 = keys corpus"
          "lookup result1 = pass_ranks corpus d (lookup result)"
    using iterate_pass_ranks [OF assms(1) Suc.prems(1)] by blast
  show ?case
  proof (cases "\<exists>p \<in> set (keys corpus).
                  \<bar>pass_ranks corpus d (lookup result) p - lookup result p\<bar> > 1 / 1000")
    case False
    have p1: "iterate_pass corpus d result = Inr (False, result1)"
      using pass(1) False by simp
    have "iterate_loop corpus d result = Some (Inr result1)"
      by (subst iterate_loop.simps) (simp add: p1)
    moreover have "\<forall>p \<in> set (keys corpus). \<bar>lookup result1 p - lookup result p\<bar> \<le> 1 / 1000"
      using False pass(3) by (auto simp: not_less)
    ultimately show ?thesis using p1 pass(2) Suc.prems(1) by blast
  next
    case True
    have p1: "iterate_pass corpus d result = Inr (True, result1)"
      using pass(1) True by simp
    have again: "iterate_loop corpus d result = iterate_loop corpus d result1"
      by (subst iterate_loop.simps) (simp add: p1)
    have "\<forall>p \<in> set (keys corpus).
           \<bar>(pass_ranks corpus d ^^ Suc m) (lookup result1) p
              - (pass_ranks corpus d ^^ m) (lookup result1) p\<bar> \<le> 1 / 1000"
      using Suc.prems(2) by (simp add: pass(3) funpow_swap1)
    from Suc.IH [OF pass(2) this] show ?thesis by (simp add: again)
  qed
qed

text \<open>
  For every graph and every damping factor in \<open>(0,1)\<close>, \<open>iterate_pagerank\<close> returns,
  and what it returns is the outcome of a pass that left \<open>go\<close> false: no rank changed
  by more than 0.001 in that pass.
\<close>

lemma iterate_pagerank_terminates:
  assumes "distinct (keys corpus)" and "0 < d" and "d < 1"
  shows "\<exists>prev result.
           iterate_pagerank corpus d = Some (Inr result)
           \<and> keys prev = keys corpus \<and> keys result = keys corpus
           \<and> iterate_pass corpus d prev = Inr (False, result)
           \<and> (\<forall>p \<in> set (keys corpus). \<bar>lookup result p - lookup prev p\<bar> \<le> 1 / 1000)"
proof -
  let ?init = "fill corpus (1 / real (length corpus)) []"
  have k: "keys ?init = keys corpus" by (rule keys_fill_empty [OF assms(1)])
  obtain m where "\<forall>p \<in> set (keys corpus).
           \<bar>(pass_ranks corpus d ^^ Suc m) (lookup ?init) p
              - (pass_ranks corpus d ^^ m) (lookup ?init) p\<bar> \<le> 1 / 1000"
    using eventually_settled [OF assms] by blast
  from iterate_loop_settles [OF assms(1) k this] show ?thesis
    by (simp add: iterate_pagerank_def)
qed

section \<open>Properties of iterate_pagerank\<close>

lemma three_pages_pass:
  "iterate_pass three_pages d [(''a'', x), (''b'', y), (''c'', z)]
     = Inr (\<bar>(1 - d) / 3 + d * (z / 3) - x\<bar> > 1 / 1000
              \<or> \<bar>(1 - d) / 3 + d * (z / 3) - y\<bar> > 1 / 1000
              \<or> \<bar>(1 - d) / 3 + d * (((1 - d) / 3 + d * (z / 3)) + ((1 - d) / 3 + d * (z / 3)) + z / 3) - z\<bar>
                  > 1 / 1000,
            [(''a'', (1 - d) / 3 + d * (z / 3)),
             (''b'', (1 - d) / 3 + d * (z / 3)),
             (''c'', (1 - d) / 3 + d * (((1 - d) / 3 + d * (z / 3)) + ((1 - d) / 3 + d * (z / 3)) + z / 3))])"
  by (simp add: iterate_pass_def keys_def three_pages_def dict_get_def fcard_finsert_if fcard_fempty Let_def)

lemma three_pages_result:
  "iterate_pagerank three_pages (85 / 100)
     = Some (Inr [(''a'', 13882224162157896159162398065215701897 / 65536000000000000000000000000000000000),
                  (''b'', 13882224162157896159162398065215701897 / 65536000000000000000000000000000000000),
                  (''c'', 374820052378263196297384747760823951219 / 655360000000000000000000000000000000000)])"
  unfolding iterate_pagerank_def
  apply (simp add: fill_def keys_def three_pages_def)
  apply (fold three_pages_def)
  apply (subst iterate_loop.simps, simp add: three_pages_pass)+
  done

text \<open>
  Claim C4 at the three-page graph (\<open>a\<close> and \<open>b\<close> link to \<open>c\<close>, \<open>c\<close> is a sink)
  with the damping factor 0.85 of the program: \<open>iterate_pagerank\<close> returns after 17
  passes, and the returned values sum to about 0.99558, which is not within \<open>1e-6\<close> of 1.
\<close>

theorem three_pages_sum_off:
  "iterate_pagerank three_pages (85 / 100)
     = Some (Inr [(''a'', 13882224162157896159162398065215701897 / 65536000000000000000000000000000000000),
                  (''b'', 13882224162157896159162398065215701897 / 65536000000000000000000000000000000000),
                  (''c'', 374820052378263196297384747760823951219 / 655360000000000000000000000000000000000)])
   \<and> sum_list (dict_values
         [(''a'', 13882224162157896159162398065215701897 / 65536000000000000000000000000000000000 :: real),
          (''b'', 13882224162157896159162398065215701897 / 65536000000000000000000000000000000000),
          (''c'', 374820052378263196297384747760823951219 / 655360000000000000000000000000000000000)])
       = 652464535621421119480632709065137989159 / 655360000000000000000000000000000000000
   \<and> \<not> \<bar>652464535621421119480632709065137989159 / 655360000000000000000000000000000000000 - (1::real)\<bar>
         \<le> 1 / 10 ^ 6"
  using three_pages_result by (simp add: dict_values_def)

lemma iterate_loop_invariant:
  assumes "iterate_loop corpus d result = Some outcome"
    and "distinct (keys corpus)" and "keys result = keys corpus"
    and "I (lookup result)" and "\<And>rank. I rank \<Longrightarrow> I (pass_ranks corpus d rank)"
  shows "\<exists>result'. outcome = Inr result' \<and> keys result' = keys corpus \<and> I (lookup result')"
proof -
  let ?P = "\<lambda>c d' r out.
              c = corpus \<longrightarrow> d' = d \<longrightarrow> keys r = keys c \<longrightarrow> I (lookup r)
                \<longrightarrow> (\<exists>result'. out = Inr result' \<and> keys result' = keys c \<and> I (lookup result'))"
  have "?P corpus d result outcome"
  proof (rule iterate_loop.raw_induct [where P = ?P, OF _ assms(1)])
    fix loop c dd r out
    assume IH: "\<And>c' d' r' out'. loop c' d' r' = Some out' \<Longrightarrow> ?P c' d' r' out'"
      and eq: "(case iterate_pass c dd r of
                  Inl e \<Rightarrow> Some (Inl e)
                | Inr (go, result') \<Rightarrow> if go then loop c dd result' else Some (Inr result'))
               = Some out"
    show "?P c dd r out"
    proof (intro impI)
      assume c: "c = corpus" and dd: "dd = d" and k: "keys r = keys c" and inv: "I (lookup r)"
      have dist: "distinct (keys c)" using assms(2) c by simp
      obtain go result1 where
        pass: "iterate_pass c dd r = Inr (go, result1)" "keys result1 = keys c"
              "lookup result1 = pass_ranks c dd (lookup r)"
        using iterate_pass_ranks [OF dist k] by blast
      have inv1: "I (lookup result1)" using assms(5) [OF inv] pass(3) c dd by simp
      show "\<exists>result'. out = Inr result' \<and> keys result' = keys c \<and> I (lookup result')"
      proof (cases go)
        case True
        then have "loop c dd result1 = Some out" using eq pass(1) by simp
        from IH [OF this] c dd pass(2) inv1 show ?thesis by simp
      next
        case False
        then have "out = Inr result1" using eq pass(1) by simp
        then show ?thesis using pass(2) inv1 by simp
      qed
    qed
  qed
  then show ?thesis using assms(3,4) by simp
qed

lemma new_rank_lower:
  assumes "0 \<le> d" and "\<forall>q \<in> set (keys corpus). 0 \<le> rank q"
  shows "(1 - d) / real (length corpus) \<le> new_rank corpus d rank p"
proof -
  have "0 \<le> contribution corpus rank p item" if "item \<in> set corpus" for item
  proof -
    have "fst item \<in> set (keys corpus)" using that by (simp add: keys_def)
    then have "0 \<le> rank (fst item)" using assms(2) by simp
    then show ?thesis by (simp add: contribution_weight weight_nonneg)
  qed
  then have "0 \<le> sum_list (map (contribution corpus rank p) corpus)"
    by (intro sum_list_nonneg) auto
  then have "0 \<le> d * sum_list (map (contribution corpus rank p) corpus)"
    using assms(1) by simp
  then show ?thesis by (simp add: new_rank_def)
qed

lemma relax_lower:
  assumes "0 \<le> d" and "d \<le> 1"
    and "\<forall>q \<in> set (keys corpus). (1 - d) / real (length corpus) \<le> rank q"
  shows "\<forall>q \<in> set (keys corpus). (1 - d) / real (length corpus) \<le> relax corpus d ps rank q"
  using assms(3)
proof (induction ps arbitrary: rank)
  case Nil
  then show ?case by simp
next
  case (Cons p ps)
  have base: "0 \<le> (1 - d) / real (length corpus)" using assms(2) by simp
  have "\<forall>q \<in> set (keys corpus). 0 \<le> rank q"
    using Cons.prems base by (meson order_trans)
  then have "(1 - d) / real (length corpus) \<le> new_rank corpus d rank p"
    by (rule new_rank_lower [OF assms(1)])
  then have "\<forall>q \<in> set (keys corpus).
               (1 - d) / real (length corpus) \<le> (rank(p := new_rank corpus d rank p)) q"
    using Cons.prems by simp
  from Cons.IH [OF this] show ?case by (simp only: relax.simps)
qed

lemma values_lookup:
  assumes "distinct (keys d)"
  shows "set (dict_values d) = lookup d ` set (keys d)"
proof -
  have "lookup d k = v" if "(k, v) \<in> set d" for k v
    using that assms by (simp add: lookup_def keys_def)
  then have "map snd d = map (\<lambda>kv. lookup d (fst kv)) d"
    by (intro map_cong) auto
  then have "set (map snd d) = (\<lambda>kv. lookup d (fst kv)) ` set d" by (metis set_map)
  then show ?thesis by (auto simp: dict_values_def keys_def image_image)
qed

text \<open>
  Claim C10. For a non-empty graph and a damping factor in \<open>(0,1)\<close>, every rank that
  \<open>iterate_pagerank\<close> stores is at least \<open>(1 - damping_factor)/N\<close>, which is positive:
  the initial ranks are \<open>1/N\<close>; the bound survives every update of a pass, from any
  dictionary that satisfies it and for any pages still to treat; and the call returns a
  distribution whose values all satisfy the bound.
\<close>

theorem ranks_bounded_below:
  assumes "distinct (keys corpus)" and "corpus \<noteq> []" and "0 < d" and "d < 1"
  shows "(\<forall>v \<in> set (dict_values (fill corpus (1 / real (length corpus)) [])).
            v = 1 / real (length corpus))
         \<and> 0 < (1 - d) / real (length corpus)
         \<and> (1 - d) / real (length corpus) \<le> 1 / real (length corpus)
         \<and> (\<forall>pages go result go' result'.
               keys result = keys corpus
               \<longrightarrow> set pages \<subseteq> set (keys corpus)
               \<longrightarrow> (\<forall>v \<in> set (dict_values result). (1 - d) / real (length corpus) \<le> v)
               \<longrightarrow> pass_loop corpus d pages (go, result) = Inr (go', result')
               \<longrightarrow> (\<forall>v \<in> set (dict_values result'). (1 - d) / real (length corpus) \<le> v))
         \<and> (\<exists>result. iterate_pagerank corpus d = Some (Inr result)
               \<and> (\<forall>v \<in> set (dict_values result).
                     (1 - d) / real (length corpus) \<le> v \<and> 0 < v))"
proof -
  let ?b = "(1 - d) / real (length corpus)"
  let ?init = "fill corpus (1 / real (length corpus)) []"
  let ?I = "\<lambda>rank. \<forall>q \<in> set (keys corpus). ?b \<le> rank q"
  have d: "0 \<le> d" "d \<le> 1" using assms(3,4) by simp_all
  have n: "0 < real (length corpus)" using assms(2) by simp
  have pos: "0 < ?b" using n assms(4) by simp
  have le: "?b \<le> 1 / real (length corpus)"
    using n assms(3) by (simp add: divide_le_cancel)
  have init: "\<forall>v \<in> set (dict_values ?init). v = 1 / real (length corpus)"
    using assms(1) by (simp add: fill_empty dict_values_const)
  have kinit: "keys ?init = keys corpus" by (rule keys_fill_empty [OF assms(1)])
  have update: "\<forall>v \<in> set (dict_values result'). ?b \<le> v"
    if k: "keys result = keys corpus" and pages: "set pages \<subseteq> set (keys corpus)"
      and bound: "\<forall>v \<in> set (dict_values result). ?b \<le> v"
      and run: "pass_loop corpus d pages (go, result) = Inr (go', result')"
    for pages go result go' result'
  proof -
    have dr: "distinct (keys result)" using assms(1) k by simp
    obtain go1 result1 where
      pass: "pass_loop corpus d pages (go, result) = Inr (go1, result1)"
            "keys result1 = keys result"
            "lookup result1 = relax corpus d pages (lookup result)"
      using pass_loop_relax [of corpus result pages d go] k pages by auto
    have same: "result' = result1" using run pass(1) by simp
    have "?I (lookup result)" using bound values_lookup [OF dr] k by auto
    then have "?I (lookup result')"
      using relax_lower [OF d, of corpus "lookup result" pages] pass(3) same by simp
    moreover have "distinct (keys result')" using dr pass(2) same by simp
    ultimately show ?thesis using values_lookup [of result'] pass(2) same k by auto
  qed
  obtain result where
    res: "iterate_pagerank corpus d = Some (Inr result)" "keys result = keys corpus"
    using iterate_pagerank_terminates [OF assms(1,3,4)] by blast
  have "?I (lookup ?init)"
    using init le values_lookup [of ?init] kinit assms(1) by auto
  moreover have "?I (pass_ranks corpus d rank)" if "?I rank" for rank
    unfolding pass_ranks_def by (rule relax_lower [OF d that])
  ultimately obtain result2 where
    "Inr result = (Inr result2 :: error + dist)" "?I (lookup result2)"
    using iterate_loop_invariant [of corpus d ?init "Inr result" ?I] res(1) assms(1) kinit
    unfolding iterate_pagerank_def by blast
  then have "?I (lookup result)" by simp
  then have "\<forall>v \<in> set (dict_values result). ?b \<le> v \<and> 0 < v"
    using values_lookup [of result] res(2) assms(1) pos by fastforce
  with res(1) init pos le update show ?thesis by blast
qed

theorem ranks_bounded_below_witness:
  "distinct (keys three_pages) \<and> three_pages \<noteq> [] \<and> (0::real) < 85 / 100 \<and> (85 / 100 :: real) < 1
   \<and> (\<exists>result. iterate_pagerank three_pages (85 / 100) = Some (Inr result)
          \<and> (\<forall>v \<in> set (dict_values result).
                (1 - 85 / 100) / real (length three_pages) \<le> v \<and> 0 < v))"
proof -
  have h1: "distinct (keys three_pages)" by (simp add: three_pages_keys)
  have h2: "three_pages \<noteq> []" by (simp add: three_pages_def)
  have h3: "(0::real) < 85 / 100" and h4: "(85 / 100 :: real) < 1" by simp_all
  show ?thesis
    using h1 h2 h3 h4 ranks_bounded_below [OF h1 h2 h3 h4] by blast
qed










end
